theory Spec2Isabelle
  imports Complex_Main "HOL-Library.Sublist" "HOL-Library.Multiset" "HOL-Library.Word"
begin

section \<open>Go strings and the string functions the program calls\<close>

text \<open>
  A Go string is a sequence of bytes, which is what \<^typ>\<open>string\<close> is here. The
  program's own constants are kept under their names.
\<close>

definition videosDir :: string where
  "videosDir = ''videos''"

definition videoExt :: string where
  "videoExt = ''.mp4''"

definition inputsFile :: string where
  "inputsFile = ''inputs.txt''"

text \<open>
  \<open>strings.ReplaceAll(s, old, new)\<close> replaces the non-overlapping occurrences of
  \<open>old\<close>, found from the left. The program only passes non-empty patterns; the
  empty pattern (which Go treats rune by rune) is left out of the model and returns
  the string unchanged.
\<close>

function ReplaceAll :: "string \<Rightarrow> string \<Rightarrow> string \<Rightarrow> string" where
  "ReplaceAll [] old new = []"
| "ReplaceAll (c # cs) old new =
     (if old \<noteq> [] \<and> prefix old (c # cs)
      then new @ ReplaceAll (drop (length old) (c # cs)) old new
      else c # ReplaceAll cs old new)"
  by pat_completeness auto
termination
  by (relation "measure (\<lambda>(s, old, new). length s)") auto

text \<open>
  \<open>strings.TrimSpace\<close> removes the leading and the trailing runes for which
  \<open>unicode.IsSpace\<close> holds. On bytes these runes are the UTF-8 sequences below:
  the six ASCII ones, U+0085, U+00A0, U+1680, U+2000 to U+200A, U+2028, U+2029, U+202F,
  U+205F and U+3000. A byte sequence that does not decode to one of them (other
  runes, invalid UTF-8) stops the trimming.
\<close>

definition space_encodings :: "string list" where
  "space_encodings =
     [[CHR 0x09], [CHR 0x0A], [CHR 0x0B], [CHR 0x0C], [CHR 0x0D], [CHR 0x20],
      [CHR 0xC2, CHR 0x85], [CHR 0xC2, CHR 0xA0],
      [CHR 0xE1, CHR 0x9A, CHR 0x80],
      [CHR 0xE2, CHR 0x80, CHR 0x80], [CHR 0xE2, CHR 0x80, CHR 0x81],
      [CHR 0xE2, CHR 0x80, CHR 0x82], [CHR 0xE2, CHR 0x80, CHR 0x83],
      [CHR 0xE2, CHR 0x80, CHR 0x84], [CHR 0xE2, CHR 0x80, CHR 0x85],
      [CHR 0xE2, CHR 0x80, CHR 0x86], [CHR 0xE2, CHR 0x80, CHR 0x87],
      [CHR 0xE2, CHR 0x80, CHR 0x88], [CHR 0xE2, CHR 0x80, CHR 0x89],
      [CHR 0xE2, CHR 0x80, CHR 0x8A],
      [CHR 0xE2, CHR 0x80, CHR 0xA8], [CHR 0xE2, CHR 0x80, CHR 0xA9],
      [CHR 0xE2, CHR 0x80, CHR 0xAF],
      [CHR 0xE2, CHR 0x81, CHR 0x9F],
      [CHR 0xE3, CHR 0x80, CHR 0x80]]"

definition leading_space :: "string \<Rightarrow> string option" where
  "leading_space s = find (\<lambda>q. prefix q s) space_encodings"

definition trailing_space :: "string \<Rightarrow> string option" where
  "trailing_space s = find (\<lambda>q. suffix q s) space_encodings"

lemma find_SomeD: "find P xs = Some x \<Longrightarrow> P x \<and> x \<in> set xs"
  by (induction xs) (auto split: if_splits)

lemma space_encodings_nonempty: "q \<in> set space_encodings \<Longrightarrow> q \<noteq> []"
  unfolding space_encodings_def by fastforce

lemma leading_space_SomeD:
  "leading_space s = Some q \<Longrightarrow> q \<noteq> [] \<and> prefix q s"
  unfolding leading_space_def
  by (drule find_SomeD) (simp add: space_encodings_nonempty)

lemma trailing_space_SomeD:
  "trailing_space s = Some q \<Longrightarrow> q \<noteq> [] \<and> suffix q s"
  unfolding trailing_space_def
  by (drule find_SomeD) (simp add: space_encodings_nonempty)

function TrimLeftSpace :: "string \<Rightarrow> string" where
  "TrimLeftSpace s =
     (case leading_space s of
        Some q \<Rightarrow> TrimLeftSpace (drop (length q) s)
      | None \<Rightarrow> s)"
  by pat_completeness auto
termination
proof (relation "measure length")
  fix s q assume "leading_space s = Some q"
  then have "q \<noteq> []" "prefix q s" using leading_space_SomeD by auto
  then have "s \<noteq> []" by auto
  with \<open>q \<noteq> []\<close> show "(drop (length q) s, s) \<in> measure length" by simp
qed simp

function TrimRightSpace :: "string \<Rightarrow> string" where
  "TrimRightSpace s =
     (case trailing_space s of
        Some q \<Rightarrow> TrimRightSpace (take (length s - length q) s)
      | None \<Rightarrow> s)"
  by pat_completeness auto
termination
proof (relation "measure length")
  fix s q assume "trailing_space s = Some q"
  then have "q \<noteq> []" "suffix q s" using trailing_space_SomeD by auto
  then have "s \<noteq> []" by auto
  with \<open>q \<noteq> []\<close> show "(take (length s - length q) s, s) \<in> measure length" by simp
qed simp

definition TrimSpace :: "string \<Rightarrow> string" where
  "TrimSpace s = TrimRightSpace (TrimLeftSpace s)"

section \<open>sanitizeFilename\<close>

definition invalid :: "string list" where
  "invalid = [''/'', [CHR 0x5C], '':'', ''*'', ''?'', [CHR 0x22], ''<'', ''>'', ''|'', '' '']"

definition sanitizeFilename :: "string \<Rightarrow> string" where
  "sanitizeFilename name = TrimSpace (foldl (\<lambda>result char. ReplaceAll result char ''_'') name invalid)"


section \<open>Facts about the string functions\<close>

lemma ReplaceAll_single:
  "ReplaceAll s [c] new = concat (map (\<lambda>x. if x = c then new else [x]) s)"
  by (induction s) auto

lemma ReplaceAll_absent: "c \<notin> set s \<Longrightarrow> ReplaceAll s [c] new = s"
  by (induction s) auto

lemma set_ReplaceAll_underscore:
  "set (ReplaceAll s [c] ''_'') \<subseteq> (set s - {c}) \<union> {CHR ''_''}"
  unfolding ReplaceAll_single by auto

lemma foldl_ReplaceAll_clean:
  "CHR ''_'' \<notin> set cs \<Longrightarrow>
   set (foldl (\<lambda>result char. ReplaceAll result char ''_'') s (map (\<lambda>c. [c]) cs)) \<inter> set cs = {}"
proof (induction cs rule: rev_induct)
  case Nil
  then show ?case by simp
next
  case (snoc c cs)
  let ?r = "foldl (\<lambda>result char. ReplaceAll result char ''_'') s (map (\<lambda>c. [c]) cs)"
  from snoc have ih: "set ?r \<inter> set cs = {}" and u: "CHR ''_'' \<notin> set cs" "CHR ''_'' \<noteq> c"
    by auto
  have "set (ReplaceAll ?r [c] ''_'') \<subseteq> (set ?r - {c}) \<union> {CHR ''_''}"
    by (rule set_ReplaceAll_underscore)
  with ih u have "set (ReplaceAll ?r [c] ''_'') \<inter> set (cs @ [c]) = {}"
    by auto
  then show ?case by simp
qed

lemma foldl_ReplaceAll_id:
  "set s \<inter> set cs = {} \<Longrightarrow>
   foldl (\<lambda>result char. ReplaceAll result char new) s (map (\<lambda>c. [c]) cs) = s"
  by (induction cs rule: rev_induct) (auto simp: ReplaceAll_absent)

lemma suffix_TrimLeftSpace: "suffix (TrimLeftSpace s) s"
proof (induction s rule: TrimLeftSpace.induct)
  case (1 s)
  show ?case
  proof (cases "leading_space s")
    case None
    then show ?thesis by (subst TrimLeftSpace.simps) simp
  next
    case (Some q)
    with 1 have "suffix (TrimLeftSpace (drop (length q) s)) (drop (length q) s)" by simp
    then have "suffix (TrimLeftSpace (drop (length q) s)) s"
      using suffix_drop suffix_order.trans by blast
    with Some show ?thesis by (subst TrimLeftSpace.simps) simp
  qed
qed

lemma prefix_TrimRightSpace: "prefix (TrimRightSpace s) s"
proof (induction s rule: TrimRightSpace.induct)
  case (1 s)
  show ?case
  proof (cases "trailing_space s")
    case None
    then show ?thesis by (subst TrimRightSpace.simps) simp
  next
    case (Some q)
    with 1 have "prefix (TrimRightSpace (take (length s - length q) s)) (take (length s - length q) s)"
      by simp
    then have "prefix (TrimRightSpace (take (length s - length q) s)) s"
      using take_is_prefix prefix_order.trans by blast
    with Some show ?thesis by (subst TrimRightSpace.simps) simp
  qed
qed

lemma leading_space_TrimLeftSpace: "leading_space (TrimLeftSpace s) = None"
proof (induction s rule: TrimLeftSpace.induct)
  case (1 s)
  show ?case
  proof (cases "leading_space s")
    case None
    then show ?thesis by (subst TrimLeftSpace.simps) simp
  next
    case (Some q)
    with 1 show ?thesis by (subst TrimLeftSpace.simps) simp
  qed
qed

lemma trailing_space_TrimRightSpace: "trailing_space (TrimRightSpace s) = None"
proof (induction s rule: TrimRightSpace.induct)
  case (1 s)
  show ?case
  proof (cases "trailing_space s")
    case None
    then show ?thesis by (subst TrimRightSpace.simps) simp
  next
    case (Some q)
    with 1 show ?thesis by (subst TrimRightSpace.simps) simp
  qed
qed

lemma leading_space_prefix:
  assumes "leading_space t = None" and "prefix r t"
  shows "leading_space r = None"
proof -
  from assms(1) have "\<forall>q \<in> set space_encodings. \<not> prefix q t"
    by (auto simp: leading_space_def find_None_iff)
  with assms(2) have "\<forall>q \<in> set space_encodings. \<not> prefix q r"
    using prefix_order.trans by blast
  then show ?thesis by (auto simp: leading_space_def find_None_iff)
qed

lemma TrimSpace_fixed:
  "leading_space r = None \<Longrightarrow> trailing_space r = None \<Longrightarrow> TrimSpace r = r"
  by (simp add: TrimSpace_def)

lemma TrimSpace_trimmed:
  "leading_space (TrimSpace s) = None \<and> trailing_space (TrimSpace s) = None"
  unfolding TrimSpace_def
  using leading_space_prefix [OF leading_space_TrimLeftSpace prefix_TrimRightSpace]
    trailing_space_TrimRightSpace by blast

lemma TrimSpace_idem: "TrimSpace (TrimSpace s) = TrimSpace s"
  using TrimSpace_trimmed TrimSpace_fixed by blast

lemma set_TrimSpace: "set (TrimSpace s) \<subseteq> set s"
proof -
  have "set (TrimRightSpace (TrimLeftSpace s)) \<subseteq> set (TrimLeftSpace s)"
    using prefix_TrimRightSpace set_mono_prefix by blast
  moreover have "set (TrimLeftSpace s) \<subseteq> set s"
    using suffix_TrimLeftSpace set_mono_suffix by blast
  ultimately show ?thesis unfolding TrimSpace_def by blast
qed

section \<open>Sanitization\<close>

definition invalid_chars :: "char list" where
  "invalid_chars = [CHR ''/'', CHR 0x5C, CHR '':'', CHR ''*'', CHR ''?'', CHR 0x22,
     CHR ''<'', CHR ''>'', CHR ''|'', CHR '' '']"

lemma invalid_eq: "invalid = map (\<lambda>c. [c]) invalid_chars"
  by (simp add: invalid_def invalid_chars_def)

lemma sanitizeFilename_clean: "set (sanitizeFilename s) \<inter> set invalid_chars = {}"
proof -
  have "CHR ''_'' \<notin> set invalid_chars" by (simp add: invalid_chars_def)
  then have "set (foldl (\<lambda>result char. ReplaceAll result char ''_'') s invalid) \<inter> set invalid_chars = {}"
    unfolding invalid_eq by (rule foldl_ReplaceAll_clean)
  then show ?thesis
    unfolding sanitizeFilename_def using set_TrimSpace by blast
qed

text \<open>
  C8. Sanitizing is idempotent: for every string, sanitizing the sanitized name gives
  the sanitized name again.
\<close>

theorem sanitizeFilename_idempotent:
  "sanitizeFilename (sanitizeFilename s) = sanitizeFilename s"
proof -
  have "foldl (\<lambda>result char. ReplaceAll result char ''_'') (sanitizeFilename s) invalid
        = sanitizeFilename s"
    unfolding invalid_eq by (rule foldl_ReplaceAll_id) (rule sanitizeFilename_clean)
  then have "sanitizeFilename (sanitizeFilename s) = TrimSpace (sanitizeFilename s)"
    by (simp add: sanitizeFilename_def [of "sanitizeFilename s"])
  also have "\<dots> = sanitizeFilename s"
    unfolding sanitizeFilename_def by (rule TrimSpace_idem)
  finally show ?thesis .
qed


section \<open>createInputsFile: the manifest lines\<close>















section \<open>Instants of time\<close>

text \<open>
  A \<open>time.Time\<close> without a monotonic clock reading, as \<open>time.Parse\<close> and
  \<open>FileInfo.ModTime\<close> return it, is an instant: the seconds since January 1 of
  year 1, 00:00:00 UTC, and the nanoseconds within the second. The zero value
  \<open>time.Time{}\<close> is that epoch. \<open>Before\<close> and \<open>After\<close> compare instants.
\<close>

datatype Time = Instant (sec: int) (nsec: nat)

definition zeroTime :: Time where
  "zeroTime = Instant 0 0"

definition Before :: "Time \<Rightarrow> Time \<Rightarrow> bool" where
  "Before t u = (sec t < sec u \<or> (sec t = sec u \<and> nsec t < nsec u))"

definition After :: "Time \<Rightarrow> Time \<Rightarrow> bool" where
  "After t u = (sec t > sec u \<or> (sec t = sec u \<and> nsec t > nsec u))"

definition isLeap :: "int \<Rightarrow> bool" where
  "isLeap year = (year mod 4 = 0 \<and> (year mod 100 \<noteq> 0 \<or> year mod 400 = 0))"

definition daysBefore :: "int list" where
  "daysBefore = [0, 31, 59, 90, 120, 151, 181, 212, 243, 273, 304, 334, 365]"

definition daysIn :: "nat \<Rightarrow> int \<Rightarrow> int" where
  "daysIn m year =
     (if m = 2 \<and> isLeap year then 29 else daysBefore ! m - daysBefore ! (m - 1))"

text \<open>
  \<open>time.Date(year, month, day, hour, min, sec, nsec, time.UTC)\<close> for a month in 1 to 12:
  the days before the year in the proleptic Gregorian calendar (year 0 is a leap year
  and lies before the epoch), the days before the month, the leap day from March on.
\<close>

definition daysSinceEpoch :: "int \<Rightarrow> int" where
  "daysSinceEpoch year =
     365 * (year - 1) + (year - 1) div 4 - (year - 1) div 100 + (year - 1) div 400"

definition Date :: "int \<Rightarrow> nat \<Rightarrow> int \<Rightarrow> int \<Rightarrow> int \<Rightarrow> int \<Rightarrow> nat \<Rightarrow> Time" where
  "Date year month day hour minute second ns =
     (let d = daysSinceEpoch year + daysBefore ! (month - 1)
              + (if isLeap year \<and> month \<ge> 3 then 1 else 0)
              + (day - 1)
      in Instant (d * 86400 + hour * 3600 + minute * 60 + second) ns)"

section \<open>time.Parse with the layout of the program\<close>

type_synonym error = string

definition isDigit :: "char \<Rightarrow> bool" where
  "isDigit c = (c \<in> set ''0123456789'')"

definition digit :: "char \<Rightarrow> int" where
  "digit c = int (of_char c) - 48"

definition atoi :: "string \<Rightarrow> int" where
  "atoi s = foldl (\<lambda>n c. 10 * n + digit c) 0 s"

text \<open>\<open>getnum\<close> reads one or two digits; with \<open>fixed\<close> it wants two.\<close>

fun getnum :: "string \<Rightarrow> bool \<Rightarrow> (int \<times> string) option" where
  "getnum (a # b # s) fixed =
     (if \<not> isDigit a then None
      else if \<not> isDigit b then (if fixed then None else Some (digit a, b # s))
      else Some (digit a * 10 + digit b, s))"
| "getnum [a] fixed =
     (if \<not> isDigit a then None else if fixed then None else Some (digit a, []))"
| "getnum [] fixed = None"

text \<open>
  \<open>skip\<close> consumes the literal text of the layout between two fields; a space of the
  layout stands for any run of spaces in the value.
\<close>

function skip :: "string \<Rightarrow> string \<Rightarrow> string option" where
  "skip v [] = Some v"
| "skip v (p # ps) =
     (if p = CHR '' ''
      then (if v \<noteq> [] \<and> hd v \<noteq> CHR '' '' then None
            else skip (dropWhile (\<lambda>c. c = CHR '' '') v) (dropWhile (\<lambda>c. c = CHR '' '') (p # ps)))
      else (case v of [] \<Rightarrow> None
            | c # cs \<Rightarrow> if c \<noteq> p then None else skip cs ps))"
  by pat_completeness auto
termination
proof (relation "measure (\<lambda>(v, p). length p)")
  fix v :: string and p :: char and ps :: string
  assume "p = CHR '' ''"
  then have "dropWhile (\<lambda>c. c = CHR '' '') (p # ps) = dropWhile (\<lambda>c. c = CHR '' '') ps"
    by simp
  moreover have "length (dropWhile (\<lambda>c. c = CHR '' '') ps) \<le> length ps"
    by (rule length_dropWhile_le)
  ultimately show "((dropWhile (\<lambda>c. c = CHR '' '') v, dropWhile (\<lambda>c. c = CHR '' '') (p # ps)), (v, p # ps))
      \<in> measure (\<lambda>(v, p). length p)"
    by simp
qed auto

definition errBad :: error where
  "errBad = ''parsing time: malformed value''"

definition errRange :: "string \<Rightarrow> error" where
  "errRange what = ''parsing time: '' @ what @ '' out of range''"

definition errExtra :: error where
  "errExtra = ''parsing time: extra text''"

text \<open>
  A fractional second after the seconds field is accepted although the layout has none:
  a period or comma and digits, of which the first nine count.
\<close>

definition parseFraction :: "string \<Rightarrow> nat \<times> string" where
  "parseFraction v =
     (if length v \<ge> 2 \<and> (hd v = CHR ''.'' \<or> hd v = CHR '','') \<and> isDigit (v ! 1)
      then (let ds = takeWhile isDigit (tl v); k = take 9 ds
            in (nat (atoi k) * 10 ^ (9 - length k), dropWhile isDigit (tl v)))
      else (0, v))"

text \<open>
  \<open>time.Parse("1-2-2006, 15:04:05", value)\<close>, field by field in the order of the
  layout. A field out of its range ends the parse where it is read; the day is checked
  against the month and year once all the value is read. No zone is in the layout, so the
  instant is in UTC.
\<close>

definition Parse :: "string \<Rightarrow> error + Time" where
  "Parse v0 =
     (case getnum v0 False of None \<Rightarrow> Inl errBad
      | Some (month, v1) \<Rightarrow>
      if month \<le> 0 \<or> 12 < month then Inl (errRange ''month'') else
     (case skip v1 ''-'' of None \<Rightarrow> Inl errBad
      | Some v2 \<Rightarrow>
     (case getnum v2 False of None \<Rightarrow> Inl errBad
      | Some (day, v3) \<Rightarrow>
     (case skip v3 ''-'' of None \<Rightarrow> Inl errBad
      | Some v4 \<Rightarrow>
      if length v4 < 4 \<or> \<not> list_all isDigit (take 4 v4) then Inl errBad else
      let year = atoi (take 4 v4) in
     (case skip (drop 4 v4) '', '' of None \<Rightarrow> Inl errBad
      | Some v5 \<Rightarrow>
     (case getnum v5 False of None \<Rightarrow> Inl errBad
      | Some (hour, v6) \<Rightarrow>
      if hour < 0 \<or> 24 \<le> hour then Inl (errRange ''hour'') else
     (case skip v6 '':'' of None \<Rightarrow> Inl errBad
      | Some v7 \<Rightarrow>
     (case getnum v7 True of None \<Rightarrow> Inl errBad
      | Some (minute, v8) \<Rightarrow>
      if minute < 0 \<or> 60 \<le> minute then Inl (errRange ''minute'') else
     (case skip v8 '':'' of None \<Rightarrow> Inl errBad
      | Some v9 \<Rightarrow>
     (case getnum v9 True of None \<Rightarrow> Inl errBad
      | Some (second, v10) \<Rightarrow>
      if second < 0 \<or> 60 \<le> second then Inl (errRange ''second'') else
      let (ns, v11) = parseFraction v10 in
      if v11 \<noteq> [] then Inl errExtra
      else if day < 1 \<or> day > daysIn (nat month) year then Inl (errRange ''day'')
      else Inr (Date year (nat month) day hour minute second ns)))))))))))"


section \<open>The date-time pattern and regexp matching\<close>

text \<open>
  The pattern of the program is a sequence of character classes, each repeated greedily
  between a lower and an upper bound, some of them captured:
  \<^verbatim>\<open>(\d{1,2})-(\d{1,2})-(\d{4}),\s+(\d{2})[.:](\d{2})[.:](\d{2})\<close>.
  An item is its class, its bounds (no upper bound for \<open>+\<close>) and whether it is a
  group. In Go's syntax \<open>\d\<close> is an ASCII digit and \<open>\s\<close> is one of tab, newline,
  form feed, carriage return and space.
\<close>

datatype item = Item (cls: "char \<Rightarrow> bool") (rmin: nat) (rmax: "nat option") (cap: bool)

definition isSpaceClass :: "char \<Rightarrow> bool" where
  "isSpaceClass c = (c \<in> set [CHR 0x09, CHR 0x0A, CHR 0x0C, CHR 0x0D, CHR 0x20])"

definition isSep :: "char \<Rightarrow> bool" where
  "isSep c = (c \<in> set ''.:'')"

definition lit :: "char \<Rightarrow> item" where
  "lit x = Item (\<lambda>c. c = x) 1 (Some 1) False"

definition dateTimePattern :: "item list" where
  "dateTimePattern =
     [Item isDigit 1 (Some 2) True, lit CHR ''-'',
      Item isDigit 1 (Some 2) True, lit CHR ''-'',
      Item isDigit 4 (Some 4) True, lit CHR '','',
      Item isSpaceClass 1 None False,
      Item isDigit 2 (Some 2) True, Item isSep 1 (Some 1) False,
      Item isDigit 2 (Some 2) True, Item isSep 1 (Some 1) False,
      Item isDigit 2 (Some 2) True]"

text \<open>
  Go's regexp returns the match a backtracking search finds first: at a given start, a
  greedy item takes as many characters as it can and gives them back one by one while
  the rest of the pattern fails. \<open>first_some\<close> is that search over the counts.
\<close>

fun first_some :: "('a \<Rightarrow> 'b option) \<Rightarrow> 'a list \<Rightarrow> 'b option" where
  "first_some f [] = None"
| "first_some f (k # ks) = (case f k of Some r \<Rightarrow> Some r | None \<Rightarrow> first_some f ks)"

definition counts :: "item \<Rightarrow> string \<Rightarrow> nat list" where
  "counts it s =
     (let n = length (takeWhile (cls it) s);
          m = (case rmax it of None \<Rightarrow> n | Some h \<Rightarrow> min n h)
      in rev [rmin it ..< Suc m])"

fun match_seq :: "item list \<Rightarrow> string \<Rightarrow> (string list \<times> string) option" where
  "match_seq [] s = Some ([], s)"
| "match_seq (it # its) s =
     first_some
       (\<lambda>k. case match_seq its (drop k s) of
              None \<Rightarrow> None
            | Some (caps, rest) \<Rightarrow> Some ((if cap it then [take k s] else []) @ caps, rest))
       (counts it s)"

text \<open>
  \<open>FindStringSubmatch\<close>: the leftmost start at which the pattern matches; the result
  is the matched text followed by the groups, or nil (here \<open>None\<close>).
\<close>

fun FindStringSubmatch :: "item list \<Rightarrow> string \<Rightarrow> string list option" where
  "FindStringSubmatch re [] =
     (case match_seq re [] of
        Some (caps, rest) \<Rightarrow> Some ([] # caps)
      | None \<Rightarrow> None)"
| "FindStringSubmatch re (c # cs) =
     (case match_seq re (c # cs) of
        Some (caps, rest) \<Rightarrow> Some (take (length (c # cs) - length rest) (c # cs) # caps)
      | None \<Rightarrow> FindStringSubmatch re cs)"

section \<open>extractDateFromPath\<close>

text \<open>
  \<open>filepath.Base\<close> with the separator \<open>/\<close> (the Unix build; no volume names):
  trailing separators are dropped and the last element is returned, \<open>.\<close> for the
  empty path and \<open>/\<close> for a path of separators only.
\<close>

definition Base :: "string \<Rightarrow> string" where
  "Base path =
     (if path = [] then ''.''
      else let p1 = rev (dropWhile (\<lambda>c. c = CHR ''/'') (rev path));
               p2 = rev (takeWhile (\<lambda>c. c \<noteq> CHR ''/'') (rev p1))
           in if p2 = [] then ''/'' else p2)"

text \<open>
  What \<open>os.Stat\<close> answers for a path is the part of the file system the function reads:
  an error, or the file's information, of which the modification time is used.
\<close>

record FileInfo =
  isRegular :: bool
  ModTime :: Time

type_synonym statfn = "string \<Rightarrow> error + FileInfo"

text \<open>
  The first half of \<open>extractDateFromPath\<close>: the match, the date-time string rebuilt
  with colons, and its parse. \<open>None\<close> stands for falling through to the fallback.
\<close>

definition dateTimeStr :: "string list \<Rightarrow> string" where
  "dateTimeStr matches =
     matches ! 1 @ ''-'' @ matches ! 2 @ ''-'' @ matches ! 3 @ '', '' @
     matches ! 4 @ '':'' @ matches ! 5 @ '':'' @ matches ! 6"

definition parseFilename :: "string \<Rightarrow> Time option" where
  "parseFilename filename =
     (case FindStringSubmatch dateTimePattern filename of
        None \<Rightarrow> None
      | Some matches \<Rightarrow>
          if length matches = 7
          then (case Parse (dateTimeStr matches) of Inr t \<Rightarrow> Some t | Inl err \<Rightarrow> None)
          else None)"

definition extractDateFromPath :: "statfn \<Rightarrow> string \<Rightarrow> Time" where
  "extractDateFromPath stat filePath =
     (case parseFilename (Base filePath) of
        Some t \<Rightarrow> t
      | None \<Rightarrow>
          (case stat filePath of
             Inr info \<Rightarrow> ModTime info
           | Inl err \<Rightarrow> zeroTime))"


section \<open>Facts about the matcher\<close>

lemma first_some_SomeD: "first_some f ks = Some r \<Longrightarrow> \<exists>k \<in> set ks. f k = Some r"
  by (induction ks) (auto split: option.splits)

lemma first_some_not_None: "k \<in> set ks \<Longrightarrow> f k \<noteq> None \<Longrightarrow> first_some f ks \<noteq> None"
  by (induction ks) (auto split: option.splits)

lemma counts_D:
  assumes "k \<in> set (counts it s)"
  shows "rmin it \<le> k" and "k \<le> length (takeWhile (cls it) s)" and "rmax it = Some h \<Longrightarrow> k \<le> h"
  using assms by (auto simp: counts_def Let_def split: option.splits)

lemma counts_I:
  "rmin it \<le> k \<Longrightarrow> k \<le> length (takeWhile (cls it) s) \<Longrightarrow> (\<And>h. rmax it = Some h \<Longrightarrow> k \<le> h)
   \<Longrightarrow> k \<in> set (counts it s)"
  by (auto simp: counts_def Let_def split: option.splits)

lemma take_takeWhile_all:
  assumes "k \<le> length (takeWhile P s)"
  shows "list_all P (take k s) \<and> length (take k s) = k"
proof -
  have "take k (takeWhile P s @ dropWhile P s) = take k (takeWhile P s)"
    using assms by (simp del: takeWhile_dropWhile_id)
  then have eq: "take k s = take k (takeWhile P s)" by simp
  have "set (take k (takeWhile P s)) \<subseteq> set (takeWhile P s)" by (rule set_take_subset)
  moreover have "\<forall>x \<in> set (takeWhile P s). P x" by (auto dest: set_takeWhileD)
  ultimately have "list_all P (take k s)" unfolding eq list_all_iff by blast
  moreover have "length (take k s) = k" unfolding eq using assms by simp
  ultimately show ?thesis by simp
qed

lemma match_seq_ConsE:
  assumes "match_seq (Item c l h b # its) s = Some (caps, rest)"
  obtains k caps' where "l \<le> k" and "\<And>h'. h = Some h' \<Longrightarrow> k \<le> h'"
    and "list_all c (take k s)" and "length (take k s) = k"
    and "match_seq its (drop k s) = Some (caps', rest)"
    and "caps = (if b then [take k s] else []) @ caps'"
proof -
  let ?it = "Item c l h b"
  from assms have "first_some
       (\<lambda>k. case match_seq its (drop k s) of
              None \<Rightarrow> None
            | Some (caps, rest) \<Rightarrow> Some ((if cap ?it then [take k s] else []) @ caps, rest))
       (counts ?it s) = Some (caps, rest)"
    by simp
  from first_some_SomeD[OF this] obtain k where k: "k \<in> set (counts ?it s)"
    and r: "(case match_seq its (drop k s) of None \<Rightarrow> None
            | Some (caps, rest) \<Rightarrow> Some ((if cap ?it then [take k s] else []) @ caps, rest))
           = Some (caps, rest)"
    by blast
  from r obtain caps' where m: "match_seq its (drop k s) = Some (caps', rest)"
    and c: "caps = (if b then [take k s] else []) @ caps'"
    by (auto split: option.splits)
  from counts_D[OF k] have b: "l \<le> k" "\<And>h'. h = Some h' \<Longrightarrow> k \<le> h'"
    "k \<le> length (takeWhile c s)" by simp_all
  from take_takeWhile_all[OF b(3)] have t: "list_all c (take k s)" "length (take k s) = k"
    by simp_all
  show ?thesis using b(1) b(2) t m c by (rule that)
qed


fun caps_ok :: "item list \<Rightarrow> string list \<Rightarrow> bool" where
  "caps_ok [] caps = (caps = [])"
| "caps_ok (it # its) caps =
     (if cap it
      then (case caps of [] \<Rightarrow> False
            | g # gs \<Rightarrow> list_all (cls it) g \<and> rmin it \<le> length g
                \<and> (case rmax it of None \<Rightarrow> True | Some h \<Rightarrow> length g \<le> h) \<and> caps_ok its gs)
      else caps_ok its caps)"

lemma match_seq_caps_ok: "match_seq its s = Some (caps, rest) \<Longrightarrow> caps_ok its caps"
proof (induction its arbitrary: s caps)
  case Nil
  then show ?case by simp
next
  case (Cons it its)
  obtain c l h b where it: "it = Item c l h b" by (cases it)
  from Cons.prems[unfolded it] obtain k caps' where k: "l \<le> k" "\<And>h'. h = Some h' \<Longrightarrow> k \<le> h'"
    "list_all c (take k s)" "length (take k s) = k"
    "match_seq its (drop k s) = Some (caps', rest)"
    "caps = (if b then [take k s] else []) @ caps'"
    by (erule match_seq_ConsE)
  from Cons.IH[OF k(5)] have ih: "caps_ok its caps'" .
  show ?case
  proof (cases b)
    case False
    with k(6) ih show ?thesis by (simp add: it)
  next
    case True
    have "case h of None \<Rightarrow> True | Some h' \<Rightarrow> length (take k s) \<le> h'"
      using k(2) k(4) by (cases h) simp_all
    with True k(1,3,4,6) ih show ?thesis by (simp add: it)
  qed
qed


definition digits :: "nat \<Rightarrow> nat \<Rightarrow> string \<Rightarrow> bool" where
  "digits l h g = (list_all isDigit g \<and> l \<le> length g \<and> length g \<le> h)"

lemma caps_ok_group:
  "caps_ok (Item isDigit l (Some h) True # its) caps
   \<longleftrightarrow> (\<exists>g gs. caps = g # gs \<and> digits l h g \<and> caps_ok its gs)"
  by (cases caps) (auto simp: digits_def)

lemma caps_ok_plain: "caps_ok (Item c l h False # its) caps = caps_ok its caps"
  by simp

lemma match_dateTimePattern_shape:
  assumes "match_seq dateTimePattern s = Some (caps, rest)"
  shows "\<exists>g1 g2 g3 g4 g5 g6. caps = [g1, g2, g3, g4, g5, g6]
      \<and> digits 1 2 g1 \<and> digits 1 2 g2 \<and> digits 4 4 g3
      \<and> digits 2 2 g4 \<and> digits 2 2 g5 \<and> digits 2 2 g6"
proof -
  have "caps_ok dateTimePattern caps" using match_seq_caps_ok[OF assms] .
  from this[unfolded dateTimePattern_def lit_def caps_ok_group caps_ok_plain caps_ok.simps(1)]
  show ?thesis by (elim exE conjE) simp
qed

lemma FindStringSubmatch_Some:
  assumes "FindStringSubmatch re s = Some ms"
  shows "\<exists>t caps rest w. suffix t s \<and> match_seq re t = Some (caps, rest) \<and> ms = w # caps"
  using assms
proof (induction s)
  case Nil
  then show ?case by (auto split: option.splits)
next
  case (Cons c cs)
  show ?case
  proof (cases "match_seq re (c # cs)")
    case None
    with Cons.prems have "FindStringSubmatch re cs = Some ms" by simp
    from Cons.IH[OF this] obtain t caps rest w where
      "suffix t cs" "match_seq re t = Some (caps, rest)" "ms = w # caps" by blast
    moreover from this(1) have "suffix t (c # cs)" by (rule suffix_ConsI)
    ultimately show ?thesis by blast
  next
    case (Some r)
    obtain caps rest where r: "r = (caps, rest)" by (cases r)
    with Some Cons.prems have "ms = take (length (c # cs) - length rest) (c # cs) # caps"
      by simp
    with Some r show ?thesis by blast
  qed
qed

lemma FindStringSubmatch_shape:
  assumes "FindStringSubmatch dateTimePattern s = Some ms"
  shows "\<exists>w g1 g2 g3 g4 g5 g6. ms = [w, g1, g2, g3, g4, g5, g6]
      \<and> digits 1 2 g1 \<and> digits 1 2 g2 \<and> digits 4 4 g3
      \<and> digits 2 2 g4 \<and> digits 2 2 g5 \<and> digits 2 2 g6"
proof -
  from FindStringSubmatch_Some[OF assms] obtain t caps rest w
    where m: "match_seq dateTimePattern t = Some (caps, rest)" and ms: "ms = w # caps"
    by blast
  from match_dateTimePattern_shape[OF m] ms show ?thesis by (elim exE conjE) simp
qed


section \<open>Facts about the parser\<close>

lemma not_isDigit_punct [simp]:
  "\<not> isDigit CHR ''-''" "\<not> isDigit CHR '':''" "\<not> isDigit CHR '',''" "\<not> isDigit CHR '' ''"
  by (simp_all add: isDigit_def)

lemma digit_bounds: "isDigit c \<Longrightarrow> 0 \<le> digit c \<and> digit c \<le> 9"
  by (auto simp: isDigit_def digit_def)

lemma digits_1_2E:
  assumes "digits 1 2 g"
  obtains a where "g = [a]" "isDigit a" | a b where "g = [a, b]" "isDigit a" "isDigit b"
proof -
  from assms have l: "length g = 1 \<or> length g = 2" and d: "list_all isDigit g"
    by (auto simp: digits_def)
  from l show ?thesis
  proof
    assume "length g = 1"
    then obtain a where "g = [a]" by (cases g) auto
    with d that(1) show ?thesis by simp
  next
    assume "length g = 2"
    then obtain a b where "g = [a, b]"
      by (cases g; cases "tl g") auto
    with d that(2) show ?thesis by simp
  qed
qed

lemma digits_2_2E:
  assumes "digits 2 2 g"
  obtains a b where "g = [a, b]" "isDigit a" "isDigit b"
proof -
  from assms have l: "length g = 2" and d: "list_all isDigit g"
    by (auto simp: digits_def)
  from l obtain a b where "g = [a, b]"
    by (cases g; cases "tl g") auto
  with d that show ?thesis by simp
qed

lemma digits_4_4E:
  assumes "digits 4 4 g"
  obtains a b c d where "g = [a, b, c, d]" "isDigit a" "isDigit b" "isDigit c" "isDigit d"
proof -
  from assms have l: "length g = 4" and d: "list_all isDigit g"
    by (auto simp: digits_def)
  from l obtain a b c d where "g = [a, b, c, d]"
    by (auto simp: length_Suc_conv numeral_eq_Suc)
  with d that show ?thesis by simp
qed

lemma getnum_one: "isDigit a \<Longrightarrow> \<not> isDigit x \<Longrightarrow> getnum (a # x # s) False = Some (atoi [a], x # s)"
  by (simp add: atoi_def)

lemma getnum_two: "isDigit a \<Longrightarrow> isDigit b \<Longrightarrow> getnum (a # b # s) f = Some (atoi [a, b], s)"
  by (simp add: atoi_def)

lemma getnum_group:
  assumes "digits 1 2 g" and "\<not> isDigit x"
  shows "getnum (g @ x # s) False = Some (atoi g, x # s)"
  using assms(1)
proof (cases rule: digits_1_2E)
  case (1 a)
  with assms(2) show ?thesis using getnum_one by simp
next
  case (2 a b)
  then show ?thesis using getnum_two by simp
qed

lemma getnum_fixed:
  assumes "digits 2 2 g"
  shows "getnum (g @ s) f = Some (atoi g, s)"
  using assms
proof (cases rule: digits_2_2E)
  case (1 a b)
  then show ?thesis using getnum_two by simp
qed

lemma atoi_nonneg: "list_all isDigit g \<Longrightarrow> 0 \<le> atoi g"
proof (induction g rule: rev_induct)
  case Nil
  then show ?case by (simp add: atoi_def)
next
  case (snoc c g)
  then have "0 \<le> atoi g" "0 \<le> digit c" using digit_bounds by auto
  then show ?case by (simp add: atoi_def)
qed


lemma skip_lit: "p \<noteq> CHR '' '' \<Longrightarrow> skip (p # v) [p] = Some v"
  by simp

lemma skip_comma_space:
  "isDigit a \<Longrightarrow> skip (CHR '','' # CHR '' '' # a # v) '', '' = Some (a # v)"
  by (auto simp: isDigit_def)

lemma Parse_steps:
  assumes g: "digits 1 2 g1" "digits 1 2 g2" "digits 4 4 g3" "digits 2 2 g4" "digits 2 2 g5" "digits 2 2 g6"
  shows "Parse (g1 @ ''-'' @ g2 @ ''-'' @ g3 @ '', '' @ g4 @ '':'' @ g5 @ '':'' @ g6) =
     (if atoi g1 \<le> 0 \<or> 12 < atoi g1 then Inl (errRange ''month'')
      else if 24 \<le> atoi g4 then Inl (errRange ''hour'')
      else if 60 \<le> atoi g5 then Inl (errRange ''minute'')
      else if 60 \<le> atoi g6 then Inl (errRange ''second'')
      else if atoi g2 < 1 \<or> atoi g2 > daysIn (nat (atoi g1)) (atoi g3) then Inl (errRange ''day'')
      else Inr (Date (atoi g3) (nat (atoi g1)) (atoi g2) (atoi g4) (atoi g5) (atoi g6) 0))"
proof -
  from g(3) obtain y1 y2 y3 y4 where g3: "g3 = [y1, y2, y3, y4]"
    and y: "isDigit y1" "isDigit y2" "isDigit y3" "isDigit y4" by (rule digits_4_4E)
  from g(4) obtain h1 h2 where g4: "g4 = [h1, h2]" and h: "isDigit h1" "isDigit h2"
    by (rule digits_2_2E)
  have n4: "0 \<le> atoi g4" and n5: "0 \<le> atoi g5" and n6: "0 \<le> atoi g6"
    using g(4,5,6) atoi_nonneg unfolding digits_def by blast+
  let ?v6 = "'':'' @ g5 @ '':'' @ g6"
  let ?v4 = "g3 @ '', '' @ g4 @ ?v6"
  let ?v2 = "g2 @ ''-'' @ ?v4"
  have 1: "getnum (g1 @ ''-'' @ ?v2) False = Some (atoi g1, ''-'' @ ?v2)"
    using getnum_group[OF g(1), of "CHR ''-''" ?v2] by simp
  have 2: "skip (''-'' @ ?v2) ''-'' = Some ?v2" by simp
  have 3: "getnum ?v2 False = Some (atoi g2, ''-'' @ ?v4)"
    using getnum_group[OF g(2), of "CHR ''-''" ?v4] by simp
  have 4: "skip (''-'' @ ?v4) ''-'' = Some ?v4" by simp
  have 5: "\<not> length ?v4 < 4" "list_all isDigit g3" "take 4 ?v4 = g3"
    "drop 4 ?v4 = '', '' @ g4 @ ?v6"
    using y by (simp_all add: g3)
  have 6: "skip ('', '' @ g4 @ ?v6) '', '' = Some (g4 @ ?v6)"
    using skip_comma_space[OF h(1)] by (simp add: g4)
  have 7: "getnum (g4 @ ?v6) False = Some (atoi g4, ?v6)"
    by (rule getnum_fixed[OF g(4)])
  have 8: "skip ?v6 '':'' = Some (g5 @ '':'' @ g6)" by simp
  have 9: "getnum (g5 @ '':'' @ g6) True = Some (atoi g5, '':'' @ g6)"
    by (rule getnum_fixed[OF g(5)])
  have 10: "skip ('':'' @ g6) '':'' = Some g6" by simp
  have 11: "getnum g6 True = Some (atoi g6, [])"
    using getnum_fixed[OF g(6), of "[]"] by simp
  have 12: "parseFraction [] = (0, [])" by (simp add: parseFraction_def)
  show ?thesis
    unfolding Parse_def 1 2 3 4 option.case prod.case Let_def
    using n4 n5 n6
    by (simp only: 5 6 7 8 9 10 11 12 option.case prod.case Let_def if_False not_False_eq_True if_True simp_thms)
       (simp add: not_less not_le)
qed


section \<open>Matching is blind to the choice of separator\<close>

definition sep_eq :: "char \<Rightarrow> char \<Rightarrow> bool" where
  "sep_eq a b = (a = b \<or> (isSep a \<and> isSep b))"

lemma takeWhile_rel:
  assumes "list_all2 R s t" and "\<And>a b. R a b \<Longrightarrow> P a = P b"
  shows "length (takeWhile P s) = length (takeWhile P t)"
  using assms(1)
proof (induction rule: list_all2_induct)
  case Nil
  then show ?case by simp
next
  case (Cons x xs y ys)
  with assms(2)[of x y] show ?case by simp
qed

lemma counts_rel:
  assumes "list_all2 R s t" and "\<And>a b. R a b \<Longrightarrow> cls it a = cls it b"
  shows "counts it s = counts it t"
  unfolding counts_def using takeWhile_rel[OF assms] by simp

lemma first_some_rel:
  assumes "\<And>k. k \<in> set ks \<Longrightarrow> rel_option Q (f k) (g k)"
  shows "rel_option Q (first_some f ks) (first_some g ks)"
  using assms
proof (induction ks)
  case Nil
  then show ?case by simp
next
  case (Cons k ks)
  have "rel_option Q (f k) (g k)" using Cons.prems by simp
  moreover have "rel_option Q (first_some f ks) (first_some g ks)"
    using Cons by simp
  ultimately show ?case
    by (cases "f k"; cases "g k") simp_all
qed

lemma match_seq_rel:
  assumes "list_all2 R s t" and "\<And>it a b. it \<in> set its \<Longrightarrow> R a b \<Longrightarrow> cls it a = cls it b"
  shows "rel_option (rel_prod (list_all2 (list_all2 R)) (list_all2 R)) (match_seq its s) (match_seq its t)"
  using assms
proof (induction its arbitrary: s t)
  case Nil
  then show ?case by simp
next
  case (Cons it its)
  have c: "counts it s = counts it t"
    using counts_rel[OF Cons.prems(1)] Cons.prems(2) by simp
  have step: "rel_option (rel_prod (list_all2 (list_all2 R)) (list_all2 R))
       (case match_seq its (drop k s) of None \<Rightarrow> None
        | Some (caps, rest) \<Rightarrow> Some ((if cap it then [take k s] else []) @ caps, rest))
       (case match_seq its (drop k t) of None \<Rightarrow> None
        | Some (caps, rest) \<Rightarrow> Some ((if cap it then [take k t] else []) @ caps, rest))" for k
  proof -
    have d: "list_all2 R (drop k s) (drop k t)" and tk: "list_all2 R (take k s) (take k t)"
      using Cons.prems(1) by (simp_all add: list_all2_dropI list_all2_takeI)
    have "rel_option (rel_prod (list_all2 (list_all2 R)) (list_all2 R))
        (match_seq its (drop k s)) (match_seq its (drop k t))"
      using Cons.IH[OF d] Cons.prems(2) by simp
    with tk show ?thesis
      by (cases "match_seq its (drop k s)"; cases "match_seq its (drop k t)") auto
  qed
  show ?case
    unfolding match_seq.simps c by (rule first_some_rel) (rule step)
qed

lemma FindStringSubmatch_rel:
  assumes "list_all2 R s t" and "\<And>it a b. it \<in> set re \<Longrightarrow> R a b \<Longrightarrow> cls it a = cls it b"
  shows "rel_option (\<lambda>ms ms'. length ms = length ms' \<and> list_all2 (list_all2 R) (tl ms) (tl ms'))
     (FindStringSubmatch re s) (FindStringSubmatch re t)"
  using assms(1)
proof (induction rule: list_all2_induct)
  case Nil
  have "rel_option (rel_prod (list_all2 (list_all2 R)) (list_all2 R)) (match_seq re []) (match_seq re [])"
    by (rule match_seq_rel) (simp_all add: assms(2))
  then show ?case
    by (cases "match_seq re []") (auto dest: list_all2_lengthD)
next
  case (Cons x xs y ys)
  have "list_all2 R (x # xs) (y # ys)" using Cons by simp
  then have "rel_option (rel_prod (list_all2 (list_all2 R)) (list_all2 R))
      (match_seq re (x # xs)) (match_seq re (y # ys))"
    by (rule match_seq_rel) (simp add: assms(2))
  with Cons.IH show ?case
    by (cases "match_seq re (x # xs)"; cases "match_seq re (y # ys)") (auto dest: list_all2_lengthD)
qed


section \<open>What extractDateFromPath returns\<close>

definition validDateTime :: "string list \<Rightarrow> bool" where
  "validDateTime matches =
     (1 \<le> atoi (matches ! 1) \<and> atoi (matches ! 1) \<le> 12 \<and>
      1 \<le> atoi (matches ! 2) \<and>
      atoi (matches ! 2) \<le> daysIn (nat (atoi (matches ! 1))) (atoi (matches ! 3)) \<and>
      atoi (matches ! 4) \<le> 23 \<and> atoi (matches ! 5) \<le> 59 \<and> atoi (matches ! 6) \<le> 59)"

definition stampTime :: "string list \<Rightarrow> Time" where
  "stampTime matches =
     Date (atoi (matches ! 3)) (nat (atoi (matches ! 1))) (atoi (matches ! 2))
          (atoi (matches ! 4)) (atoi (matches ! 5)) (atoi (matches ! 6)) 0"

definition fallback :: "statfn \<Rightarrow> string \<Rightarrow> Time" where
  "fallback stat filePath =
     (case stat filePath of Inr info \<Rightarrow> ModTime info | Inl err \<Rightarrow> zeroTime)"

lemma parseFilename_match:
  assumes "FindStringSubmatch dateTimePattern name = Some ms"
  shows "parseFilename name = (if validDateTime ms then Some (stampTime ms) else None)"
proof -
  from FindStringSubmatch_shape[OF assms] obtain w g1 g2 g3 g4 g5 g6
    where ms: "ms = [w, g1, g2, g3, g4, g5, g6]"
      and g: "digits 1 2 g1" "digits 1 2 g2" "digits 4 4 g3" "digits 2 2 g4" "digits 2 2 g5" "digits 2 2 g6"
    by blast
  have str: "dateTimeStr ms = g1 @ ''-'' @ g2 @ ''-'' @ g3 @ '', '' @ g4 @ '':'' @ g5 @ '':'' @ g6"
    by (simp add: dateTimeStr_def ms)
  have len: "length ms = 7" by (simp add: ms)
  have "parseFilename name = (case Parse (dateTimeStr ms) of Inr t \<Rightarrow> Some t | Inl err \<Rightarrow> None)"
    by (simp add: parseFilename_def assms len)
  also have "\<dots> = (if validDateTime ms then Some (stampTime ms) else None)"
    unfolding str Parse_steps[OF g]
    by (auto simp: validDateTime_def stampTime_def ms)
  finally show ?thesis .
qed


lemma sep_eq_digit: "sep_eq a b \<Longrightarrow> isDigit a \<Longrightarrow> a = b"
  by (auto simp: sep_eq_def isSep_def isDigit_def)

lemma sep_eq_digits: "list_all2 sep_eq g g' \<Longrightarrow> list_all isDigit g \<Longrightarrow> g = g'"
proof (induction rule: list_all2_induct)
  case Nil
  then show ?case by simp
next
  case (Cons x xs y ys)
  then show ?case using sep_eq_digit by simp
qed

lemma sep_eq_cls:
  assumes "it \<in> set dateTimePattern" and "sep_eq a b"
  shows "cls it a = cls it b"
proof -
  have "isDigit a = isDigit b" "isSpaceClass a = isSpaceClass b" "isSep a = isSep b"
    "(a = CHR ''-'') = (b = CHR ''-'')" "(a = CHR '','') = (b = CHR '','')"
    using assms(2) by (auto simp: sep_eq_def isSep_def isDigit_def isSpaceClass_def)
  with assms(1) show ?thesis
    by (auto simp: dateTimePattern_def lit_def)
qed

lemma parseFilename_sep:
  assumes "list_all2 sep_eq name name'"
  shows "parseFilename name' = parseFilename name"
proof -
  have rel: "rel_option (\<lambda>ms ms'. length ms = length ms' \<and> list_all2 (list_all2 sep_eq) (tl ms) (tl ms'))
     (FindStringSubmatch dateTimePattern name) (FindStringSubmatch dateTimePattern name')"
    using assms by (rule FindStringSubmatch_rel) (rule sep_eq_cls)
  show ?thesis
  proof (cases "FindStringSubmatch dateTimePattern name")
    case None
    with rel have "FindStringSubmatch dateTimePattern name' = None"
      by (cases "FindStringSubmatch dateTimePattern name'") simp_all
    with None show ?thesis by (simp add: parseFilename_def)
  next
    case (Some ms)
    with rel obtain ms' where ms': "FindStringSubmatch dateTimePattern name' = Some ms'"
      and r: "list_all2 (list_all2 sep_eq) (tl ms) (tl ms')"
      by (cases "FindStringSubmatch dateTimePattern name'") simp_all
    from FindStringSubmatch_shape[OF Some] obtain w g1 g2 g3 g4 g5 g6
      where ms: "ms = [w, g1, g2, g3, g4, g5, g6]"
        and g: "digits 1 2 g1" "digits 1 2 g2" "digits 4 4 g3" "digits 2 2 g4" "digits 2 2 g5" "digits 2 2 g6"
      by blast
    from FindStringSubmatch_shape[OF ms'] obtain w' h1 h2 h3 h4 h5 h6
      where ms2: "ms' = [w', h1, h2, h3, h4, h5, h6]"
      by blast
    from r g have "h1 = g1" "h2 = g2" "h3 = g3" "h4 = g4" "h5 = g5" "h6 = g6"
      unfolding ms ms2 digits_def using sep_eq_digits by auto
    then have "validDateTime ms' = validDateTime ms" "stampTime ms' = stampTime ms"
      by (simp_all add: validDateTime_def stampTime_def ms ms2)
    then show ?thesis
      using parseFilename_match[OF Some] parseFilename_match[OF ms'] by simp
  qed
qed

lemma daysBefore_nonneg: "m \<le> 12 \<Longrightarrow> 0 \<le> daysBefore ! m"
proof -
  assume "m \<le> 12"
  then have "daysBefore ! m \<in> set daysBefore"
    by (intro nth_mem) (simp add: daysBefore_def)
  moreover have "\<forall>x \<in> set daysBefore. 0 \<le> x" by (simp add: daysBefore_def)
  ultimately show ?thesis by blast
qed

lemma nonneg_combination:
  fixes z a b c :: int
  shows "0 \<le> z \<Longrightarrow> 0 \<le> a \<Longrightarrow> 0 \<le> c \<Longrightarrow> b \<le> z \<Longrightarrow> 0 \<le> 365 * z + a - b + c"
  by linarith

lemma daysSinceEpoch_nonneg:
  assumes "1 \<le> year"
  shows "0 \<le> daysSinceEpoch year"
proof -
  let ?z = "year - 1"
  have z: "0 \<le> ?z" using assms by simp
  then have "0 \<le> ?z div 4" "0 \<le> ?z div 400" "?z div 100 \<le> ?z"
    by (simp_all add: pos_imp_zdiv_nonneg_iff)
  with z show ?thesis unfolding daysSinceEpoch_def by (intro nonneg_combination)
qed

lemma stampTime_nonneg:
  assumes "validDateTime ms" and "1 \<le> atoi (ms ! 3)" 
    and "0 \<le> atoi (ms ! 4)" "0 \<le> atoi (ms ! 5)" "0 \<le> atoi (ms ! 6)"
  shows "0 \<le> sec (stampTime ms) \<and> nsec (stampTime ms) = 0"
proof -
  from assms(1) have m: "nat (atoi (ms ! 1)) - 1 \<le> 12" and d: "1 \<le> atoi (ms ! 2)"
    by (auto simp: validDateTime_def)
  have "0 \<le> daysSinceEpoch (atoi (ms ! 3)) + daysBefore ! (nat (atoi (ms ! 1)) - 1) + (atoi (ms ! 2) - 1)"
    using daysSinceEpoch_nonneg[OF assms(2)] daysBefore_nonneg[OF m] d by linarith
  then have "0 \<le> (daysSinceEpoch (atoi (ms ! 3)) + daysBefore ! (nat (atoi (ms ! 1)) - 1)
      + (if isLeap (atoi (ms ! 3)) \<and> nat (atoi (ms ! 1)) \<ge> 3 then 1 else 0) + (atoi (ms ! 2) - 1)) * 86400"
    by simp
  with assms(3,4,5) show ?thesis
    by (simp add: stampTime_def Date_def Let_def)
qed


lemmas match_eval = dateTimePattern_def lit_def counts_def isDigit_def isSep_def isSpaceClass_def

lemmas time_eval = validDateTime_def stampTime_def atoi_def digit_def Date_def daysIn_def
  daysBefore_def daysSinceEpoch_def isLeap_def

lemma extractDateFromPath_match:
  assumes "FindStringSubmatch dateTimePattern (Base filePath) = Some matches"
  shows "extractDateFromPath stat filePath =
         (if validDateTime matches then stampTime matches else fallback stat filePath)"
  by (simp add: extractDateFromPath_def fallback_def parseFilename_match[OF assms])

text \<open>
  C5, as the code has it. When the pattern matches in the base name, with \<open>matches\<close>
  the leftmost match, extraction returns the instant of its six fields exactly when the
  month is in 1 to 12, the day is valid for the month and the year, the hour is at most
  23 and the minute and second are at most 59; otherwise it falls back. A name that
  differs only in which of \<open>.\<close> and \<open>:\<close> stands where parses to the same result.
\<close>

theorem extractDateFromPath_timestamp:
  assumes "FindStringSubmatch dateTimePattern (Base filePath) = Some matches"
  shows "extractDateFromPath stat filePath =
           (if validDateTime matches then stampTime matches else fallback stat filePath)
         \<and> (\<forall>name'. list_all2 sep_eq (Base filePath) name'
                \<longrightarrow> parseFilename name' = parseFilename (Base filePath))"
  using extractDateFromPath_match[OF assms] parseFilename_sep by blast

theorem extractDateFromPath_timestamp_witness:
  "FindStringSubmatch dateTimePattern (Base ''/v/c 12-30-2025, 21.00.00.mp4'')
     = Some [''12-30-2025, 21.00.00'', ''12'', ''30'', ''2025'', ''21'', ''00'', ''00'']
   \<and> extractDateFromPath (\<lambda>p. Inl ''stat'') ''/v/c 12-30-2025, 21.00.00.mp4''
     = Instant 63902725200 0
   \<and> parseFilename ''c 12-30-2025, 21:00:00.mp4'' = parseFilename (Base ''/v/c 12-30-2025, 21.00.00.mp4'')"
proof -
  have b: "Base ''/v/c 12-30-2025, 21.00.00.mp4'' = ''c 12-30-2025, 21.00.00.mp4''"
    by (simp add: Base_def)
  have h: "FindStringSubmatch dateTimePattern (Base ''/v/c 12-30-2025, 21.00.00.mp4'')
     = Some [''12-30-2025, 21.00.00'', ''12'', ''30'', ''2025'', ''21'', ''00'', ''00'']"
    unfolding b by (simp add: match_eval)
  have v: "validDateTime [''12-30-2025, 21.00.00'', ''12'', ''30'', ''2025'', ''21'', ''00'', ''00'']"
    by (simp add: time_eval)
  have s: "stampTime [''12-30-2025, 21.00.00'', ''12'', ''30'', ''2025'', ''21'', ''00'', ''00'']
     = Instant 63902725200 0"
    by (simp add: time_eval)
  have r: "list_all2 sep_eq (Base ''/v/c 12-30-2025, 21.00.00.mp4'') ''c 12-30-2025, 21:00:00.mp4''"
    unfolding b by (simp add: sep_eq_def isSep_def)
  from extractDateFromPath_timestamp[OF h, of "\<lambda>p. Inl ''stat''"] h v s r show ?thesis
    by simp
qed

text \<open>
  The claim as stated fails on the hour: in \<open>c 1-1-2026, 25.00.00.mp4\<close> the month
  and the day are valid, and the parse fails.
\<close>

theorem extractDateFromPath_timestamp_counterexample:
  "FindStringSubmatch dateTimePattern ''c 1-1-2026, 25.00.00.mp4''
     = Some [''1-1-2026, 25.00.00'', ''1'', ''1'', ''2026'', ''25'', ''00'', ''00'']
   \<and> 1 \<le> atoi ''1'' \<and> atoi ''1'' \<le> 12
   \<and> 1 \<le> atoi ''1'' \<and> atoi ''1'' \<le> daysIn (nat (atoi ''1'')) (atoi ''2026'')
   \<and> parseFilename ''c 1-1-2026, 25.00.00.mp4'' = None"
proof -
  have h: "FindStringSubmatch dateTimePattern ''c 1-1-2026, 25.00.00.mp4''
     = Some [''1-1-2026, 25.00.00'', ''1'', ''1'', ''2026'', ''25'', ''00'', ''00'']"
    by (simp add: match_eval)
  have "\<not> validDateTime [''1-1-2026, 25.00.00'', ''1'', ''1'', ''2026'', ''25'', ''00'', ''00'']"
    by (simp add: time_eval)
  with parseFilename_match[OF h] have "parseFilename ''c 1-1-2026, 25.00.00.mp4'' = None"
    by simp
  with h show ?thesis by (simp add: time_eval)
qed


lemma parseFilename_no_match:
  "FindStringSubmatch dateTimePattern name = None \<Longrightarrow> parseFilename name = None"
  by (simp add: parseFilename_def)

text \<open>
  C6. When the base name has no match of the pattern, or its leftmost match is not a
  valid date and time, extraction returns the modification time that \<open>os.Stat\<close>
  reports for the path, and the zero time when \<open>os.Stat\<close> fails. The function is
  total: it returns an instant and no error.
\<close>

theorem extractDateFromPath_fallback:
  assumes "FindStringSubmatch dateTimePattern (Base filePath) = None
           \<or> (\<exists>ms. FindStringSubmatch dateTimePattern (Base filePath) = Some ms \<and> \<not> validDateTime ms)"
  shows "extractDateFromPath stat filePath =
           (case stat filePath of Inr info \<Rightarrow> ModTime info | Inl err \<Rightarrow> zeroTime)"
proof -
  from assms have "parseFilename (Base filePath) = None"
    using parseFilename_no_match parseFilename_match by auto
  then show ?thesis by (simp add: extractDateFromPath_def)
qed

theorem extractDateFromPath_fallback_witness:
  "FindStringSubmatch dateTimePattern (Base ''/v/cam.mp4'') = None
   \<and> extractDateFromPath (\<lambda>p. Inr \<lparr>isRegular = True, ModTime = Instant 63902725200 5\<rparr>) ''/v/cam.mp4''
       = Instant 63902725200 5
   \<and> extractDateFromPath (\<lambda>p. Inl ''no such file'') ''/v/cam.mp4'' = zeroTime"
proof -
  have h: "FindStringSubmatch dateTimePattern (Base ''/v/cam.mp4'') = None"
    by (simp add: Base_def match_eval)
  then have a: "FindStringSubmatch dateTimePattern (Base ''/v/cam.mp4'') = None
           \<or> (\<exists>ms. FindStringSubmatch dateTimePattern (Base ''/v/cam.mp4'') = Some ms \<and> \<not> validDateTime ms)"
    by simp
  from extractDateFromPath_fallback[OF a, of "\<lambda>p. Inr \<lparr>isRegular = True, ModTime = Instant 63902725200 5\<rparr>"]
    extractDateFromPath_fallback[OF a, of "\<lambda>p. Inl ''no such file''"] h
  show ?thesis by simp
qed

lemma stamp_fields_nonneg:
  assumes "FindStringSubmatch dateTimePattern name = Some ms"
  shows "0 \<le> atoi (ms ! 4) \<and> 0 \<le> atoi (ms ! 5) \<and> 0 \<le> atoi (ms ! 6)"
proof -
  from FindStringSubmatch_shape[OF assms] obtain w g1 g2 g3 g4 g5 g6
    where ms: "ms = [w, g1, g2, g3, g4, g5, g6]"
      and g: "digits 2 2 g4" "digits 2 2 g5" "digits 2 2 g6"
    by blast
  from g show ?thesis unfolding ms digits_def using atoi_nonneg by simp
qed

text \<open>
  C10, as the code has it. The instant returned when neither the name nor \<open>os.Stat\<close>
  gives a time is the zero time. For a time parsed from a name whose year field is not
  \<open>0000\<close>, the zero time is not after it, and it is not before the zero time, so the
  comparator of the sort never puts that file before a file with the zero time.
\<close>

theorem zeroTime_sentinel:
  "(parseFilename (Base filePath) = None \<longrightarrow> stat filePath = Inl err
      \<longrightarrow> extractDateFromPath stat filePath = zeroTime)
   \<and> (FindStringSubmatch dateTimePattern name = Some ms \<longrightarrow> 1 \<le> atoi (ms ! 3)
      \<longrightarrow> parseFilename name = Some t
      \<longrightarrow> \<not> After zeroTime t \<and> \<not> Before t zeroTime)"
proof (intro conjI impI)
  assume "parseFilename (Base filePath) = None" "stat filePath = Inl err"
  then show "extractDateFromPath stat filePath = zeroTime"
    by (simp add: extractDateFromPath_def)
next
  assume m: "FindStringSubmatch dateTimePattern name = Some ms" and y: "1 \<le> atoi (ms ! 3)"
    and p: "parseFilename name = Some t"
  from p parseFilename_match[OF m] have v: "validDateTime ms" and t: "t = stampTime ms"
    by (auto split: if_splits)
  from stamp_fields_nonneg[OF m] stampTime_nonneg[OF v y]
  have "0 \<le> sec t \<and> nsec t = 0" unfolding t by blast
  then show "\<not> After zeroTime t" "\<not> Before t zeroTime"
    by (auto simp: After_def Before_def zeroTime_def)
qed

theorem zeroTime_sentinel_witness:
  "parseFilename (Base ''/v/cam.mp4'') = None
   \<and> extractDateFromPath (\<lambda>p. Inl ''no such file'') ''/v/cam.mp4'' = zeroTime
   \<and> FindStringSubmatch dateTimePattern ''c 1-1-0001, 00.00.00''
       = Some [''1-1-0001, 00.00.00'', ''1'', ''1'', ''0001'', ''00'', ''00'', ''00'']
   \<and> parseFilename ''c 1-1-0001, 00.00.00'' = Some (Instant 0 0)
   \<and> \<not> After zeroTime (Instant 0 0) \<and> \<not> Before (Instant 0 0) zeroTime"
proof -
  have n: "parseFilename (Base ''/v/cam.mp4'') = None"
    by (simp add: Base_def parseFilename_def match_eval)
  have h: "FindStringSubmatch dateTimePattern ''c 1-1-0001, 00.00.00''
       = Some [''1-1-0001, 00.00.00'', ''1'', ''1'', ''0001'', ''00'', ''00'', ''00'']"
    by (simp add: match_eval)
  have y: "1 \<le> atoi ([''1-1-0001, 00.00.00'', ''1'', ''1'', ''0001'', ''00'', ''00'', ''00''] ! 3)"
    by (simp add: time_eval)
  have p: "parseFilename ''c 1-1-0001, 00.00.00'' = Some (Instant 0 0)"
    unfolding parseFilename_match[OF h] by (simp add: time_eval)
  from zeroTime_sentinel[of "''/v/cam.mp4''" "\<lambda>p. Inl ''no such file''" "''no such file''"
      "''c 1-1-0001, 00.00.00''" "[''1-1-0001, 00.00.00'', ''1'', ''1'', ''0001'', ''00'', ''00'', ''00'']"
      "Instant 0 0"] n h y p
  show ?thesis by simp
qed

text \<open>
  The claim as stated fails for the year field \<open>0000\<close>, which has four digits:
  \<open>time.Parse\<close> accepts year 0, which lies before the zero time.
\<close>

theorem zeroTime_sentinel_counterexample:
  "FindStringSubmatch dateTimePattern ''c 1-1-0000, 00.00.00''
       = Some [''1-1-0000, 00.00.00'', ''1'', ''1'', ''0000'', ''00'', ''00'', ''00'']
   \<and> parseFilename ''c 1-1-0000, 00.00.00'' = Some (Instant (- 31622400) 0)
   \<and> After zeroTime (Instant (- 31622400) 0)
   \<and> Before (Instant (- 31622400) 0) zeroTime"
proof -
  have h: "FindStringSubmatch dateTimePattern ''c 1-1-0000, 00.00.00''
       = Some [''1-1-0000, 00.00.00'', ''1'', ''1'', ''0000'', ''00'', ''00'', ''00'']"
    by (simp add: match_eval)
  have p: "parseFilename ''c 1-1-0000, 00.00.00'' = Some (Instant (- 31622400) 0)"
    unfolding parseFilename_match[OF h] by (simp add: time_eval)
  from h p show ?thesis by (simp add: After_def Before_def zeroTime_def)
qed


section \<open>Floating-point numbers and their printing\<close>

text \<open>
  A \<open>float64\<close> is a finite value, an infinity or NaN. A finite value is kept as the
  rational it denotes (every double is one); the sign of zero is not kept. Comparisons
  with NaN are false, as in Go.
\<close>

datatype float64 = Finite rat | PosInf | NegInf | NaN

fun f64_less :: "float64 \<Rightarrow> float64 \<Rightarrow> bool" where
  "f64_less NaN y = False"
| "f64_less x NaN = False"
| "f64_less (Finite a) (Finite b) = (a < b)"
| "f64_less (Finite a) PosInf = True"
| "f64_less (Finite a) NegInf = False"
| "f64_less PosInf y = False"
| "f64_less NegInf NegInf = False"
| "f64_less NegInf y = True"

text \<open>
  Rounding to the nearest double, ties to even: \<open>ilog2 x\<close> is the binary exponent of
  a positive \<open>x\<close>, the spacing of doubles at that exponent is \<open>2 ^ (e - 52)\<close>, with
  the exponent held at -1022 in the subnormal range, and a result of \<open>2 ^ 1024\<close> or
  more is an infinity.
\<close>

definition pow2 :: "int \<Rightarrow> rat" where
  "pow2 e = (if 0 \<le> e then 2 ^ nat e else 1 / 2 ^ nat (- e))"

lemma floor_half_less:
  fixes x :: rat
  assumes "2 \<le> x"
  shows "\<lfloor>x / 2\<rfloor> < \<lfloor>x\<rfloor>"
proof -
  have "x / 2 \<le> x - 1" using assms by simp
  then have "\<lfloor>x / 2\<rfloor> \<le> \<lfloor>x - 1\<rfloor>" by (rule floor_mono)
  also have "\<dots> = \<lfloor>x\<rfloor> - 1" by simp
  finally show ?thesis by simp
qed

function log_up :: "rat \<Rightarrow> int" where
  "log_up x = (if x < 2 then 0 else 1 + log_up (x / 2))"
  by pat_completeness auto
termination
proof (relation "measure (\<lambda>x. nat \<lfloor>x\<rfloor>)")
  fix x :: rat
  assume "\<not> x < 2"
  then have x: "2 \<le> x" by simp
  have "0 < \<lfloor>x\<rfloor>" using x by simp
  with floor_half_less[OF x] show "(x / 2, x) \<in> measure (\<lambda>x. nat \<lfloor>x\<rfloor>)" by simp
qed simp

lemma ceiling_double_less:
  fixes x :: rat
  assumes "0 < x" "x < 1"
  shows "\<lceil>1 / (2 * x)\<rceil> < \<lceil>1 / x\<rceil>"
proof -
  have "1 < 1 / x" using assms by simp
  then have "2 \<le> \<lceil>1 / x\<rceil>" by linarith
  have "1 / (2 * x) = (1 / x) / 2" by simp
  also have "\<dots> \<le> of_int \<lceil>1 / x\<rceil> / 2" by (simp add: divide_right_mono)
  also have "\<dots> \<le> of_int (\<lceil>1 / x\<rceil> - 1)" using \<open>2 \<le> \<lceil>1 / x\<rceil>\<close> by simp
  finally have "\<lceil>1 / (2 * x)\<rceil> \<le> \<lceil>1 / x\<rceil> - 1" by (rule ceiling_le)
  then show ?thesis by simp
qed

function log_down :: "rat \<Rightarrow> int" where
  "log_down x = (if x \<le> 0 \<or> 1 \<le> x then 0 else log_down (2 * x) - 1)"
  by pat_completeness auto
termination
proof (relation "measure (\<lambda>x. nat \<lceil>1 / x\<rceil>)")
  fix x :: rat
  assume "\<not> (x \<le> 0 \<or> 1 \<le> x)"
  then have x: "0 < x" "x < 1" by simp_all
  then have "0 < \<lceil>1 / x\<rceil>" by simp
  with ceiling_double_less[OF x] show "(2 * x, x) \<in> measure (\<lambda>x. nat \<lceil>1 / x\<rceil>)" by simp
qed simp

definition ilog2 :: "rat \<Rightarrow> int" where
  "ilog2 x = (if 1 \<le> x then log_up x else log_down x)"

definition round_half_even :: "rat \<Rightarrow> int" where
  "round_half_even y =
     (let f = \<lfloor>y\<rfloor>; d = y - of_int f
      in if d < 1 / 2 then f else if 1 / 2 < d then f + 1 else if even f then f else f + 1)"

definition fl :: "rat \<Rightarrow> float64" where
  "fl x =
     (if x = 0 then Finite 0
      else let e = max (ilog2 \<bar>x\<bar>) (- 1022);
               u = pow2 (e - 52);
               r = of_int (round_half_even (\<bar>x\<bar> / u)) * u
           in if pow2 1024 \<le> r then (if 0 < x then PosInf else NegInf)
              else Finite (sgn x * r))"

text \<open>
  \<open>fmt.Sprintf\<close> with the verb \<open>%.<prec>f\<close>: the value rounded to \<open>prec\<close>
  decimals, ties to even on the exact value of the double, printed with a sign, the
  integer part, and the decimals padded with zeros. \<open>scaled\<close> is the rounded value
  counted in units of the last decimal; \<open>dec\<close> is also what \<open>%d\<close> prints.
\<close>

definition digit_char :: "nat \<Rightarrow> char" where
  "digit_char n = char_of (48 + n)"

function dec :: "nat \<Rightarrow> string" where
  "dec n = (if n < 10 then [digit_char n] else dec (n div 10) @ [digit_char (n mod 10)])"
  by pat_completeness auto
termination
  by (relation "measure id") auto

definition pad :: "nat \<Rightarrow> string \<Rightarrow> string" where
  "pad w s = replicate (w - length s) (CHR ''0'') @ s"

definition scaled :: "nat \<Rightarrow> rat \<Rightarrow> nat" where
  "scaled prec q = nat (round_half_even (\<bar>q\<bar> * 10 ^ prec))"

definition render :: "nat \<Rightarrow> bool \<Rightarrow> nat \<Rightarrow> string" where
  "render prec neg n =
     (if neg then ''-'' else []) @ dec (n div 10 ^ prec) @
     (if prec = 0 then [] else ''.'' @ pad prec (dec (n mod 10 ^ prec)))"

fun FormatFloat :: "nat \<Rightarrow> float64 \<Rightarrow> string" where
  "FormatFloat prec NaN = ''NaN''"
| "FormatFloat prec PosInf = ''+Inf''"
| "FormatFloat prec NegInf = ''-Inf''"
| "FormatFloat prec (Finite q) = render prec (q < 0) (scaled prec q)"



section \<open>sort.Slice\<close>

text \<open>
  \<open>sort.Slice\<close> is the pattern-defeating quicksort of the Go library (Go 1.19 and
  later), \<open>pdqsort_func\<close> in \<open>sort/zsortfunc.go\<close>, followed here function by
  function. The slice is a list, \<open>data.Swap\<close> is \<open>swap\<close>, and \<open>data.Less(i, j)\<close> is
  the comparator on the elements now at \<open>i\<close> and \<open>j\<close>. The indices are natural
  numbers; the library's loops never take an index below zero on the ranges it sorts.
\<close>

definition swap :: "'a list \<Rightarrow> nat \<Rightarrow> nat \<Rightarrow> 'a list" where
  "swap data i j = data[i := data ! j, j := data ! i]"

text \<open>
  The inner loops of the partitions move one index while a condition holds:
  \<open>for i < n && P(i) { i++ }\<close> and \<open>for i <= j && P(j) { j-- }\<close>.
\<close>

function scan_up :: "(nat \<Rightarrow> bool) \<Rightarrow> nat \<Rightarrow> nat \<Rightarrow> nat" where
  "scan_up P i n = (if i < n \<and> P i then scan_up P (i + 1) n else i)"
  by pat_completeness auto
termination
  by (relation "measure (\<lambda>(P, i, n). n - i)") auto

declare scan_up.simps [simp del]

function scan_down :: "(nat \<Rightarrow> bool) \<Rightarrow> nat \<Rightarrow> nat \<Rightarrow> nat" where
  "scan_down P i j = (if i \<le> j \<and> 0 < j \<and> P j then scan_down P i (j - 1) else j)"
  by pat_completeness auto
termination
  by (relation "measure (\<lambda>(P, i, j). j)") auto

declare scan_down.simps [simp del]

text \<open>
  \<open>insertionSort_func\<close>: the element at \<open>j\<close> moves down while it is less than its
  predecessor.
\<close>

function insert_down :: "('a \<Rightarrow> 'a \<Rightarrow> bool) \<Rightarrow> 'a list \<Rightarrow> nat \<Rightarrow> nat \<Rightarrow> 'a list" where
  "insert_down lessf data a j =
     (if a < j \<and> lessf (data ! j) (data ! (j - 1))
      then insert_down lessf (swap data j (j - 1)) a (j - 1)
      else data)"
  by pat_completeness auto
termination
  by (relation "measure (\<lambda>(lessf, data, a, j). j)") auto

declare insert_down.simps [simp del]

function insertionSort_from :: "('a \<Rightarrow> 'a \<Rightarrow> bool) \<Rightarrow> 'a list \<Rightarrow> nat \<Rightarrow> nat \<Rightarrow> nat \<Rightarrow> 'a list" where
  "insertionSort_from lessf data a b i =
     (if i < b then insertionSort_from lessf (insert_down lessf data a i) a b (i + 1) else data)"
  by pat_completeness auto
termination
  by (relation "measure (\<lambda>(lessf, data, a, b, i). b - i)") auto

declare insertionSort_from.simps [simp del]

definition insertionSort :: "('a \<Rightarrow> 'a \<Rightarrow> bool) \<Rightarrow> 'a list \<Rightarrow> nat \<Rightarrow> nat \<Rightarrow> 'a list" where
  "insertionSort lessf data a b = insertionSort_from lessf data a b (a + 1)"

text \<open>
  \<open>siftDown_func\<close> and \<open>heapSort_func\<close>; the two counting loops of the heap sort run
  from their start down to zero.
\<close>

function siftDown :: "('a \<Rightarrow> 'a \<Rightarrow> bool) \<Rightarrow> 'a list \<Rightarrow> nat \<Rightarrow> nat \<Rightarrow> nat \<Rightarrow> 'a list" where
  "siftDown lessf data rootIx hi first =
     (let child = 2 * rootIx + 1 in
      if child \<ge> hi then data
      else let child = (if child + 1 < hi \<and> lessf (data ! (first + child)) (data ! (first + child + 1))
                        then child + 1 else child) in
           if \<not> lessf (data ! (first + rootIx)) (data ! (first + child)) then data
           else siftDown lessf (swap data (first + rootIx) (first + child)) child hi first)"
  by pat_completeness auto
termination
  by (relation "measure (\<lambda>(lessf, data, rootIx, hi, first). hi - rootIx)") (auto simp: Let_def)

declare siftDown.simps [simp del]

fun heapify :: "('a \<Rightarrow> 'a \<Rightarrow> bool) \<Rightarrow> 'a list \<Rightarrow> nat \<Rightarrow> nat \<Rightarrow> nat \<Rightarrow> 'a list" where
  "heapify lessf data hi first 0 = data"
| "heapify lessf data hi first (Suc i) = heapify lessf (siftDown lessf data i hi first) hi first i"

fun popAll :: "('a \<Rightarrow> 'a \<Rightarrow> bool) \<Rightarrow> 'a list \<Rightarrow> nat \<Rightarrow> nat \<Rightarrow> 'a list" where
  "popAll lessf data first 0 = data"
| "popAll lessf data first (Suc i) =
     popAll lessf (siftDown lessf (swap data first (first + i)) 0 i first) first i"

definition heapSort :: "('a \<Rightarrow> 'a \<Rightarrow> bool) \<Rightarrow> 'a list \<Rightarrow> nat \<Rightarrow> nat \<Rightarrow> 'a list" where
  "heapSort lessf data a b =
     (let first = a; hi = b - a;
          data = heapify lessf data hi first ((hi - 1) div 2 + 1)
      in popAll lessf data first hi)"


lemma scan_up_ge: "i \<le> scan_up P i n"
proof (induction P i n rule: scan_up.induct)
  case (1 P i n)
  then show ?case by (subst scan_up.simps) auto
qed

lemma scan_up_le: "i \<le> n \<Longrightarrow> scan_up P i n \<le> n"
proof (induction P i n rule: scan_up.induct)
  case (1 P i n)
  then show ?case by (subst scan_up.simps) auto
qed

lemma scan_down_le: "scan_down P i j \<le> j"
proof (induction P i j rule: scan_down.induct)
  case (1 P i j)
  then show ?case by (subst scan_down.simps) auto
qed

lemma scan_down_ge: "i \<le> j + 1 \<Longrightarrow> i \<le> scan_down P i j + 1"
proof (induction P i j rule: scan_down.induct)
  case (1 P i j)
  then show ?case by (subst scan_down.simps) auto
qed

text \<open>
  \<open>partition_func\<close>: the pivot goes to \<open>a\<close>, smaller elements to its left, others to
  its right; the result is the data, the pivot's new index and whether the range was
  partitioned already. \<open>partitionEqual_func\<close> separates the elements equal to the pivot
  from the greater ones.
\<close>

function partition_loop ::
  "('a \<Rightarrow> 'a \<Rightarrow> bool) \<Rightarrow> 'a list \<Rightarrow> nat \<Rightarrow> nat \<Rightarrow> nat \<Rightarrow> 'a list \<times> nat \<times> bool" where
  "partition_loop lessf data a i j =
     (let i = scan_up (\<lambda>i. lessf (data ! i) (data ! a)) i (j + 1);
          j = scan_down (\<lambda>j. \<not> lessf (data ! j) (data ! a)) i j
      in if i > j then (swap data j a, j, False)
         else partition_loop lessf (swap data i j) a (i + 1) (j - 1))"
  by pat_completeness auto
termination
proof (relation "measure (\<lambda>(lessf, data, a, i, j). j + 1 - i)")
  fix lessf :: "'a \<Rightarrow> 'a \<Rightarrow> bool" and data :: "'a list" and a i j x xa :: nat
  assume x: "x = scan_up (\<lambda>i. lessf (data ! i) (data ! a)) i (j + 1)"
    and xa: "xa = scan_down (\<lambda>j. \<not> lessf (data ! j) (data ! a)) x j"
    and c: "\<not> xa < x"
  have "i \<le> x" unfolding x by (rule scan_up_ge)
  moreover have "xa \<le> j" unfolding xa by (rule scan_down_le)
  ultimately show "((lessf, swap data x xa, a, x + 1, xa - 1), (lessf, data, a, i, j))
      \<in> measure (\<lambda>(lessf, data, a, i, j). j + 1 - i)"
    using c by simp
qed simp

declare partition_loop.simps [simp del]

definition partition ::
  "('a \<Rightarrow> 'a \<Rightarrow> bool) \<Rightarrow> 'a list \<Rightarrow> nat \<Rightarrow> nat \<Rightarrow> nat \<Rightarrow> 'a list \<times> nat \<times> bool" where
  "partition lessf data a b pivot =
     (let data = swap data a pivot;
          i = scan_up (\<lambda>i. lessf (data ! i) (data ! a)) (a + 1) (b - 1 + 1);
          j = scan_down (\<lambda>j. \<not> lessf (data ! j) (data ! a)) i (b - 1)
      in if i > j then (swap data j a, j, True)
         else partition_loop lessf (swap data i j) a (i + 1) (j - 1))"

function partitionEqual_loop ::
  "('a \<Rightarrow> 'a \<Rightarrow> bool) \<Rightarrow> 'a list \<Rightarrow> nat \<Rightarrow> nat \<Rightarrow> nat \<Rightarrow> 'a list \<times> nat" where
  "partitionEqual_loop lessf data a i j =
     (let i = scan_up (\<lambda>i. \<not> lessf (data ! a) (data ! i)) i (j + 1);
          j = scan_down (\<lambda>j. lessf (data ! a) (data ! j)) i j
      in if i > j then (data, i)
         else partitionEqual_loop lessf (swap data i j) a (i + 1) (j - 1))"
  by pat_completeness auto
termination
proof (relation "measure (\<lambda>(lessf, data, a, i, j). j + 1 - i)")
  fix lessf :: "'a \<Rightarrow> 'a \<Rightarrow> bool" and data :: "'a list" and a i j x xa :: nat
  assume x: "x = scan_up (\<lambda>i. \<not> lessf (data ! a) (data ! i)) i (j + 1)"
    and xa: "xa = scan_down (\<lambda>j. lessf (data ! a) (data ! j)) x j"
    and c: "\<not> xa < x"
  have "i \<le> x" unfolding x by (rule scan_up_ge)
  moreover have "xa \<le> j" unfolding xa by (rule scan_down_le)
  ultimately show "((lessf, swap data x xa, a, x + 1, xa - 1), (lessf, data, a, i, j))
      \<in> measure (\<lambda>(lessf, data, a, i, j). j + 1 - i)"
    using c by simp
qed simp

declare partitionEqual_loop.simps [simp del]

definition partitionEqual ::
  "('a \<Rightarrow> 'a \<Rightarrow> bool) \<Rightarrow> 'a list \<Rightarrow> nat \<Rightarrow> nat \<Rightarrow> nat \<Rightarrow> 'a list \<times> nat" where
  "partitionEqual lessf data a b pivot =
     partitionEqual_loop lessf (swap data a pivot) a (a + 1) (b - 1)"

text \<open>
  \<open>partialInsertionSort_func\<close>: at most five out-of-order pairs are repaired, and only
  in ranges of 50 or more elements; it reports whether the range is sorted.
\<close>

function shift_right :: "('a \<Rightarrow> 'a \<Rightarrow> bool) \<Rightarrow> 'a list \<Rightarrow> nat \<Rightarrow> nat \<Rightarrow> 'a list" where
  "shift_right lessf data j b =
     (if j < b \<and> lessf (data ! j) (data ! (j - 1))
      then shift_right lessf (swap data j (j - 1)) (j + 1) b
      else data)"
  by pat_completeness auto
termination
  by (relation "measure (\<lambda>(lessf, data, j, b). b - j)") auto

declare shift_right.simps [simp del]

definition maxSteps :: nat where "maxSteps = 5"
definition shortestShifting :: nat where "shortestShifting = 50"

fun partialInsertionSort_loop ::
  "('a \<Rightarrow> 'a \<Rightarrow> bool) \<Rightarrow> 'a list \<Rightarrow> nat \<Rightarrow> nat \<Rightarrow> nat \<Rightarrow> nat \<Rightarrow> 'a list \<times> bool" where
  "partialInsertionSort_loop lessf data a b i 0 = (data, False)"
| "partialInsertionSort_loop lessf data a b i (Suc steps) =
     (let i = scan_up (\<lambda>i. \<not> lessf (data ! i) (data ! (i - 1))) i b in
      if i = b then (data, True)
      else if b - a < shortestShifting then (data, False)
      else let data = swap data i (i - 1);
               data = (if i - a \<ge> 2 then insert_down lessf data 0 (i - 1) else data);
               data = (if b - i \<ge> 2 then shift_right lessf data (i + 1) b else data)
           in partialInsertionSort_loop lessf data a b i steps)"

definition partialInsertionSort ::
  "('a \<Rightarrow> 'a \<Rightarrow> bool) \<Rightarrow> 'a list \<Rightarrow> nat \<Rightarrow> nat \<Rightarrow> 'a list \<times> bool" where
  "partialInsertionSort lessf data a b = partialInsertionSort_loop lessf data a b (a + 1) maxSteps"


unbundle bit_operations_syntax

text \<open>
  \<open>breakPatterns_func\<close> swaps three elements around the middle with pseudo-random
  ones; \<open>uint\<close> has 64 bits. \<open>bits_Len\<close> is \<open>bits.Len\<close>, the length in bits.
\<close>

definition xorshift_Next :: "64 word \<Rightarrow> 64 word" where
  "xorshift_Next r =
     (let r = r XOR push_bit 13 r;
          r = r XOR drop_bit 7 r;
          r = r XOR push_bit 17 r
      in r)"

function bits_Len :: "nat \<Rightarrow> nat" where
  "bits_Len n = (if n = 0 then 0 else 1 + bits_Len (n div 2))"
  by pat_completeness auto
termination
  by (relation "measure id") auto

declare bits_Len.simps [simp del]

definition nextPowerOfTwo :: "nat \<Rightarrow> nat" where
  "nextPowerOfTwo len = 2 ^ bits_Len len"

definition breakPatterns :: "'a list \<Rightarrow> nat \<Rightarrow> nat \<Rightarrow> 'a list" where
  "breakPatterns data a b =
     (let len = b - a in
      if len \<ge> 8
      then (let random = (of_nat len :: 64 word);
                modulus = nextPowerOfTwo len;
                idx = a + (len div 4) * 2 - 1
            in fst (foldl
                 (\<lambda>(data, random) i.
                    let random = xorshift_Next random;
                        other = unat (random AND of_nat (modulus - 1));
                        other = (if other \<ge> len then other - len else other)
                    in (swap data (idx - 1 + i) (a + other), random))
                 (data, random) [0, 1, 2]))
      else data)"

text \<open>
  \<open>choosePivot_func\<close>: the median of three, or of three medians of adjacent elements
  from 50 elements on, and a hint from the number of swaps the medians needed.
\<close>

datatype sortedHint = unknownHint | increasingHint | decreasingHint

definition order2 ::
  "('a \<Rightarrow> 'a \<Rightarrow> bool) \<Rightarrow> 'a list \<Rightarrow> nat \<Rightarrow> nat \<Rightarrow> nat \<Rightarrow> nat \<times> nat \<times> nat" where
  "order2 lessf data a b swaps =
     (if lessf (data ! b) (data ! a) then (b, a, swaps + 1) else (a, b, swaps))"

definition median ::
  "('a \<Rightarrow> 'a \<Rightarrow> bool) \<Rightarrow> 'a list \<Rightarrow> nat \<Rightarrow> nat \<Rightarrow> nat \<Rightarrow> nat \<Rightarrow> nat \<times> nat" where
  "median lessf data a b c swaps =
     (let (a, b, swaps) = order2 lessf data a b swaps;
          (b, c, swaps) = order2 lessf data b c swaps;
          (a, b, swaps) = order2 lessf data a b swaps
      in (b, swaps))"

definition medianAdjacent ::
  "('a \<Rightarrow> 'a \<Rightarrow> bool) \<Rightarrow> 'a list \<Rightarrow> nat \<Rightarrow> nat \<Rightarrow> nat \<times> nat" where
  "medianAdjacent lessf data a swaps = median lessf data (a - 1) a (a + 1) swaps"

definition shortestNinther :: nat where "shortestNinther = 50"
definition maxSwaps :: nat where "maxSwaps = 4 * 3"

definition choosePivot ::
  "('a \<Rightarrow> 'a \<Rightarrow> bool) \<Rightarrow> 'a list \<Rightarrow> nat \<Rightarrow> nat \<Rightarrow> nat \<times> sortedHint" where
  "choosePivot lessf data a b =
     (let l = b - a;
          i = a + l div 4 * 1;
          j = a + l div 4 * 2;
          k = a + l div 4 * 3;
          (j, swaps) =
            (if l \<ge> 8
             then (let (i, j, k, swaps) =
                         (if l \<ge> shortestNinther
                          then (let (i, swaps) = medianAdjacent lessf data i 0;
                                    (j, swaps) = medianAdjacent lessf data j swaps;
                                    (k, swaps) = medianAdjacent lessf data k swaps
                                in (i, j, k, swaps))
                          else (i, j, k, 0))
                   in median lessf data i j k swaps)
             else (j, 0))
      in if swaps = 0 then (j, increasingHint)
         else if swaps = maxSwaps then (j, decreasingHint)
         else (j, unknownHint))"

function reverseRange_loop :: "'a list \<Rightarrow> nat \<Rightarrow> nat \<Rightarrow> 'a list" where
  "reverseRange_loop data i j =
     (if i < j then reverseRange_loop (swap data i j) (i + 1) (j - 1) else data)"
  by pat_completeness auto
termination
  by (relation "measure (\<lambda>(data, i, j). j - i)") auto

declare reverseRange_loop.simps [simp del]

definition reverseRange :: "'a list \<Rightarrow> nat \<Rightarrow> nat \<Rightarrow> 'a list" where
  "reverseRange data a b = reverseRange_loop data a (b - 1)"

definition maxInsertion :: nat where "maxInsertion = 12"


lemma partition_loop_bounds:
  "a + 2 \<le> i \<Longrightarrow> i \<le> j + 2 \<Longrightarrow> j < b \<Longrightarrow>
   a \<le> fst (snd (partition_loop lessf data a i j)) \<and> fst (snd (partition_loop lessf data a i j)) < b"
proof (induction lessf data a i j rule: partition_loop.induct)
  case (1 lessf data a i j)
  let ?i = "scan_up (\<lambda>i. lessf (data ! i) (data ! a)) i (j + 1)"
  let ?j = "scan_down (\<lambda>j. \<not> lessf (data ! j) (data ! a)) ?i j"
  have i1: "i \<le> ?i" by (rule scan_up_ge)
  have j1: "?j \<le> j" by (rule scan_down_le)
  have i2: "?i \<le> ?j + 2"
  proof (cases "i \<le> j + 1")
    case True
    then have "?i \<le> j + 1" by (rule scan_up_le)
    then have "?i \<le> ?j + 1" by (rule scan_down_ge)
    then show ?thesis by simp
  next
    case False
    then have "?i = i" by (subst scan_up.simps) simp
    moreover from False have "scan_down (\<lambda>j. \<not> lessf (data ! j) (data ! a)) i j = j"
      by (subst scan_down.simps) simp
    ultimately show ?thesis using "1.prems" by simp
  qed
  show ?case
  proof (cases "?i > ?j")
    case True
    then have "partition_loop lessf data a i j = (swap data ?j a, ?j, False)"
      by (subst partition_loop.simps) (simp add: Let_def)
    with i1 j1 i2 "1.prems" show ?thesis by simp
  next
    case False
    then have eq: "partition_loop lessf data a i j
        = partition_loop lessf (swap data ?i ?j) a (?i + 1) (?j - 1)"
      by (subst partition_loop.simps) (simp add: Let_def)
    have "a + 2 \<le> ?i + 1" "?i + 1 \<le> ?j - 1 + 2" "?j - 1 < b"
      using i1 j1 False "1.prems" by simp_all
    from "1.IH"[OF refl refl _ this] False show ?thesis unfolding eq by simp
  qed
qed

lemma partition_bounds:
  assumes "a < b"
  shows "a \<le> fst (snd (partition lessf data a b pivot)) \<and> fst (snd (partition lessf data a b pivot)) < b"
proof -
  let ?d = "swap data a pivot"
  let ?i = "scan_up (\<lambda>i. lessf (?d ! i) (?d ! a)) (a + 1) (b - 1 + 1)"
  let ?j = "scan_down (\<lambda>j. \<not> lessf (?d ! j) (?d ! a)) ?i (b - 1)"
  have i1: "a + 1 \<le> ?i" by (rule scan_up_ge)
  have "?i \<le> b - 1 + 1" using assms by (intro scan_up_le) simp
  then have i2: "?i \<le> ?j + 1" by (rule scan_down_ge)
  have j1: "?j \<le> b - 1" by (rule scan_down_le)
  show ?thesis
  proof (cases "?i > ?j")
    case True
    then have "partition lessf data a b pivot = (swap ?d ?j a, ?j, True)"
      by (simp add: partition_def Let_def)
    with i1 i2 j1 assms show ?thesis by simp
  next
    case False
    then have eq: "partition lessf data a b pivot
        = partition_loop lessf (swap ?d ?i ?j) a (?i + 1) (?j - 1)"
      by (simp add: partition_def Let_def)
    have "a + 2 \<le> ?i + 1" "?i + 1 \<le> ?j - 1 + 2" "?j - 1 < b"
      using i1 j1 False assms by simp_all
    from partition_loop_bounds[OF this] show ?thesis unfolding eq .
  qed
qed

lemma partitionEqual_loop_bound: "i \<le> snd (partitionEqual_loop lessf data a i j)"
proof (induction lessf data a i j rule: partitionEqual_loop.induct)
  case (1 lessf data a i j)
  let ?i = "scan_up (\<lambda>i. \<not> lessf (data ! a) (data ! i)) i (j + 1)"
  let ?j = "scan_down (\<lambda>j. lessf (data ! a) (data ! j)) ?i j"
  have i1: "i \<le> ?i" by (rule scan_up_ge)
  show ?case
  proof (cases "?i > ?j")
    case True
    then have "partitionEqual_loop lessf data a i j = (data, ?i)"
      by (subst partitionEqual_loop.simps) (simp add: Let_def)
    with i1 show ?thesis by simp
  next
    case False
    then have eq: "partitionEqual_loop lessf data a i j
        = partitionEqual_loop lessf (swap data ?i ?j) a (?i + 1) (?j - 1)"
      by (subst partitionEqual_loop.simps) (simp add: Let_def)
    from "1.IH"[OF refl refl] False i1 show ?thesis unfolding eq by simp
  qed
qed

lemma partitionEqual_bound: "a < snd (partitionEqual lessf data a b pivot)"
  using partitionEqual_loop_bound[of "a + 1" lessf "swap data a pivot" a "b - 1"]
  by (simp add: partitionEqual_def)

lemma partition_boundsD:
  "(d, mid, ap) = partition lessf data a b pivot \<Longrightarrow> a < b \<Longrightarrow> a \<le> mid \<and> mid < b"
  using partition_bounds[of a b lessf data pivot] by (metis fst_conv snd_conv)

lemma partitionEqual_boundD:
  "(d, mid) = partitionEqual lessf data a b pivot \<Longrightarrow> a < mid"
  using partitionEqual_bound[of a lessf data b pivot] by (metis snd_conv)

text \<open>
  The part of one round of \<open>pdqsort_func\<close> before the partition: the patterns are
  broken after an unbalanced round, the pivot is chosen, a descending range is reversed,
  and a range that looks sorted is tried with the partial insertion sort. The result is
  the data, the limit, the pivot and whether the range is now sorted.
\<close>

definition pdqsort_round ::
  "('a \<Rightarrow> 'a \<Rightarrow> bool) \<Rightarrow> 'a list \<Rightarrow> nat \<Rightarrow> nat \<Rightarrow> nat \<Rightarrow> bool \<Rightarrow> bool
   \<Rightarrow> 'a list \<times> nat \<times> nat \<times> bool" where
  "pdqsort_round lessf data a b limit wasBalanced wasPartitioned =
     (let (data, limit) =
            (if \<not> wasBalanced then (breakPatterns data a b, limit - 1) else (data, limit));
          (pivot, hint) = choosePivot lessf data a b;
          (data, pivot, hint) =
            (if hint = decreasingHint
             then (reverseRange data a b, (b - 1) - (pivot - a), increasingHint)
             else (data, pivot, hint))
      in if wasBalanced \<and> wasPartitioned \<and> hint = increasingHint
         then (let (data, sorted) = partialInsertionSort lessf data a b
               in (data, limit, pivot, sorted))
         else (data, limit, pivot, False))"

function pdqsort ::
  "('a \<Rightarrow> 'a \<Rightarrow> bool) \<Rightarrow> 'a list \<Rightarrow> nat \<Rightarrow> nat \<Rightarrow> nat \<Rightarrow> bool \<Rightarrow> bool \<Rightarrow> 'a list" where
  "pdqsort lessf data a b limit wasBalanced wasPartitioned =
     (if b - a \<le> maxInsertion then insertionSort lessf data a b
      else if limit = 0 then heapSort lessf data a b
      else case pdqsort_round lessf data a b limit wasBalanced wasPartitioned of
        (data, limit, pivot, done) \<Rightarrow>
          if done then data
          else if a > 0 \<and> \<not> lessf (data ! (a - 1)) (data ! pivot)
          then (case partitionEqual lessf data a b pivot of
                  (data, mid) \<Rightarrow> pdqsort lessf data mid b limit wasBalanced wasPartitioned)
          else (case partition lessf data a b pivot of
                  (data, mid, alreadyPartitioned) \<Rightarrow>
                    let leftLen = mid - a; rightLen = b - mid; balanceThreshold = (b - a) div 8 in
                    if leftLen < rightLen
                    then pdqsort lessf (pdqsort lessf data a mid limit True True)
                           (mid + 1) b limit (leftLen \<ge> balanceThreshold) alreadyPartitioned
                    else pdqsort lessf (pdqsort lessf data (mid + 1) b limit True True)
                           a mid limit (rightLen \<ge> balanceThreshold) alreadyPartitioned))"
  by pat_completeness auto
termination
  apply (relation "measure (\<lambda>(lessf, data, a, b, limit, wb, wp). b - a)")
      apply simp
     apply (auto simp: maxInsertion_def)
  subgoal by (frule partitionEqual_boundD) simp
  subgoal for lessf data a b limit wb wp x aa ab yb xc ad bc
    using partition_boundsD[of xc ad bc lessf x a b ab] by (cases "a < b") auto
  subgoal for lessf data b limit wb wp x aa ab yb xc ad bc
    using partition_boundsD[of xc ad bc lessf x 0 b ab] by (cases "0 < b") auto
  subgoal for lessf data a b limit wb wp x aa ab yb xc ad bc
    using partition_boundsD[of xc ad bc lessf x a b ab] by (cases "a < b") auto
  done

declare pdqsort.simps [simp del]

text \<open>\<open>sort.Slice(x, less)\<close>.\<close>

definition sort_Slice :: "('a \<Rightarrow> 'a \<Rightarrow> bool) \<Rightarrow> 'a list \<Rightarrow> 'a list" where
  "sort_Slice lessf x = pdqsort lessf x 0 (length x) (bits_Len (length x)) True True"

end
